theory Spec2Isabelle
  imports Main "HOL-Library.Word"
begin

unbundle bit_operations_syntax

section \<open>Images, masks and positions\<close>

text \<open>
  The program \<^verbatim>\<open>count_particles.py\<close> works on numpy arrays: a colour image is an array of
  BGR byte triples, a mask or a grey image is an array of bytes (\<^verbatim>\<open>uint8\<close>), a label image
  is an array of integers. An array is modelled as the list of its rows. A position is a
  pair (row, column) of integers, so that a neighbour of a border pixel is a position
  outside the array and not a wrapped index.
\<close>

type_synonym gray = "8 word list list"
type_synonym bgr = "8 word \<times> 8 word \<times> 8 word"
type_synonym image = "bgr list list"
type_synonym pos = "int \<times> int"

datatype error = SizeMismatch | ValueErrorNaN

definition shape :: "'a list list \<Rightarrow> nat list" where
  "shape img = map length img"

definition inside :: "'a list list \<Rightarrow> pos \<Rightarrow> bool" where
  "inside img p =
     (0 \<le> fst p \<and> nat (fst p) < length img \<and>
      0 \<le> snd p \<and> nat (snd p) < length (img ! nat (fst p)))"

definition px :: "'a list list \<Rightarrow> pos \<Rightarrow> 'a" where
  "px img p = img ! nat (fst p) ! nat (snd p)"

text \<open>\<open>tabulate img f\<close> is the array of the shape of \<open>img\<close> whose pixel at \<open>p\<close> is \<open>f p\<close>.\<close>

definition tabulate :: "'b list list \<Rightarrow> (pos \<Rightarrow> 'a) \<Rightarrow> 'a list list" where
  "tabulate img f =
     map (\<lambda>y. map (\<lambda>x. f (int y, int x)) [0..<length (img ! y)]) [0..<length img]"

text \<open>The positions of an array in raster order (row by row, left to right).\<close>

definition positions :: "'a list list \<Rightarrow> pos list" where
  "positions img =
     concat (map (\<lambda>y. map (\<lambda>x. (int y, int x)) [0..<length (img ! y)]) [0..<length img])"

text \<open>A pixel of a mask is foreground when it lies in the mask and is not zero.\<close>

definition fgpix :: "gray \<Rightarrow> pos \<Rightarrow> bool" where
  "fgpix m p = (inside m p \<and> px m p \<noteq> 0)"

section \<open>The library operations\<close>

subsection \<open>Operations taken as parameters\<close>

text \<open>
  The program calls OpenCV for everything it computes. The operations whose result is
  a matter of numerics, of the library's scan order or of font rendering are parameters
  of the model: the colour conversion \<^verbatim>\<open>cv2.cvtColor(image, COLOR_BGR2GRAY)\<close>, the blur
  \<^verbatim>\<open>cv2.GaussianBlur(gray, (5, 5), 0)\<close>, the threshold value that
  \<^verbatim>\<open>THRESH_OTSU\<close> computes, \<^verbatim>\<open>createCLAHE(2.0, (8, 8)).apply\<close>, the labelling
  \<^verbatim>\<open>cv2.connectedComponentsWithStats(mask)\<close>, and \<^verbatim>\<open>cv2.putText\<close> with the font,
  scale, colour and thickness of the call in \<^verbatim>\<open>count_particles\<close>.

  The labelling returns the number of labels (the background label 0 included), the
  label image, and the statistics of each label; the program reads the column
  \<^verbatim>\<open>CC_STAT_AREA\<close> only, so the model keeps the areas. The program passes no
  connectivity, so the library's default applies. The numbers the library gives to the
  components follow its own scan of the image; the model takes them as they come.

  Every theorem below holds for all values of these parameters that have the properties
  it names.
\<close>

record cv =
  cvtColor :: "image \<Rightarrow> gray"
  GaussianBlur :: "gray \<Rightarrow> gray"
  otsu :: "gray \<Rightarrow> 8 word"
  clahe :: "gray \<Rightarrow> gray"
  connectedComponentsWithStats :: "gray \<Rightarrow> nat \<times> nat list list \<times> int list"
  putText :: "image \<Rightarrow> string \<Rightarrow> pos \<Rightarrow> image"

subsection \<open>Thresholding and bitwise operations\<close>

text \<open>
  \<^verbatim>\<open>cv2.threshold(src, 0, 255, THRESH_BINARY + THRESH_OTSU)\<close> ignores the threshold it
  is given, takes the one Otsu's method computes, and sets a pixel to 255 when it is
  above it and to 0 otherwise.
\<close>

definition threshold_binary :: "8 word \<Rightarrow> gray \<Rightarrow> gray" where
  "threshold_binary t src = map (map (\<lambda>v. if t < v then 255 else 0)) src"

definition threshold_otsu :: "cv \<Rightarrow> gray \<Rightarrow> gray" where
  "threshold_otsu ops src = threshold_binary (otsu ops src) src"

text \<open>\<^verbatim>\<open>cv2.bitwise_and\<close> raises when its two arrays differ in size.\<close>

definition bitwise_and :: "gray \<Rightarrow> gray \<Rightarrow> error + gray" where
  "bitwise_and a b =
     (if shape a = shape b then Inr (tabulate a (\<lambda>p. px a p AND px b p))
      else Inl SizeMismatch)"

definition bitwise_not :: "gray \<Rightarrow> gray" where
  "bitwise_not a = map (map (\<lambda>v. NOT v)) a"

subsection \<open>Structuring elements\<close>

text \<open>
  \<^verbatim>\<open>cv2.getStructuringElement(MORPH_ELLIPSE, (n, n))\<close> for odd \<open>n\<close>, as the list of the
  offsets (row, column) of its non-zero cells from its centre, which is the anchor. With
  \<open>r = n div 2\<close>, the row at distance \<open>dy\<close> from the centre holds the cells at distance at
  most \<open>round (sqrt (r\<^sup>2 - dy\<^sup>2))\<close> from the centre column. For \<open>n = 3\<close> this is a cross.
\<close>

fun isqrt_from :: "nat \<Rightarrow> nat \<Rightarrow> nat \<Rightarrow> nat" where
  "isqrt_from 0 s m = s"
| "isqrt_from (Suc fuel) s m =
     (if (Suc s) * (Suc s) \<le> m then isqrt_from fuel (Suc s) m else s)"

definition round_sqrt :: "nat \<Rightarrow> nat" where
  "round_sqrt m = (let s = isqrt_from m 0 m in if s * s + s < m then Suc s else s)"

definition ellipse :: "nat \<Rightarrow> pos list" where
  "ellipse n =
     (let r = n div 2 in
      concat (map (\<lambda>i. let dy = int i - int r; w = int (round_sqrt (r * r - nat (dy * dy)))
                        in map (\<lambda>dx. (dy, dx)) [- w..w])
                  [0..<n]))"

subsection \<open>Morphology\<close>

text \<open>
  \<^verbatim>\<open>cv2.dilate\<close> and \<^verbatim>\<open>cv2.erode\<close> take the maximum and the minimum of the pixels
  under the structuring element. With the default border, the cells of the element that
  fall outside the image do not count. \<open>iterations = n\<close> applies the operation \<open>n\<close>
  times (the element is not a full rectangle, so the library iterates).
\<close>

definition under :: "pos list \<Rightarrow> gray \<Rightarrow> pos \<Rightarrow> 8 word list" where
  "under k src p =
     map (px src) (filter (inside src) (map (\<lambda>d. (fst p + fst d, snd p + snd d)) k))"

definition dilate1 :: "pos list \<Rightarrow> gray \<Rightarrow> gray" where
  "dilate1 k src = tabulate src (\<lambda>p. foldr max (under k src p) 0)"

definition erode1 :: "pos list \<Rightarrow> gray \<Rightarrow> gray" where
  "erode1 k src = tabulate src (\<lambda>p. foldr min (under k src p) 255)"

definition dilate :: "pos list \<Rightarrow> nat \<Rightarrow> gray \<Rightarrow> gray" where
  "dilate k n src = (dilate1 k ^^ n) src"

definition erode :: "pos list \<Rightarrow> nat \<Rightarrow> gray \<Rightarrow> gray" where
  "erode k n src = (erode1 k ^^ n) src"

text \<open>
  \<^verbatim>\<open>cv2.morphologyEx\<close>: closing dilates \<open>n\<close> times and then erodes \<open>n\<close> times, opening
  erodes and then dilates, the black hat is the closing minus the source (saturated).
\<close>

definition morph_close :: "pos list \<Rightarrow> nat \<Rightarrow> gray \<Rightarrow> gray" where
  "morph_close k n src = erode k n (dilate k n src)"

definition morph_open :: "pos list \<Rightarrow> nat \<Rightarrow> gray \<Rightarrow> gray" where
  "morph_open k n src = dilate k n (erode k n src)"

definition morph_blackhat :: "pos list \<Rightarrow> gray \<Rightarrow> gray" where
  "morph_blackhat k src =
     (let c = morph_close k 1 src
      in tabulate src (\<lambda>p. if px src p \<le> px c p then px c p - px src p else 0))"

subsection \<open>Numpy and Python helpers\<close>

text \<open>
  \<^verbatim>\<open>np.where(labels == label)\<close>: the positions that hold the label, in raster order
  (the program reads them as the array of their rows and the array of their columns).
\<close>

definition np_where_eq :: "nat list list \<Rightarrow> nat \<Rightarrow> pos list" where
  "np_where_eq labels label = filter (\<lambda>p. px labels p = label) (positions labels)"

text \<open>\<^verbatim>\<open>np.argmax\<close>: the index of the first maximum.\<close>

fun argmax :: "int list \<Rightarrow> nat" where
  "argmax [] = 0"
| "argmax [x] = 0"
| "argmax (x # y # ys) = (let i = argmax (y # ys) in if (y # ys) ! i \<le> x then 0 else Suc i)"

text \<open>
  \<^verbatim>\<open>int(a.mean())\<close> for an array of indices: the mean of no element is NaN, and
  \<^verbatim>\<open>int\<close> raises ValueError on it; otherwise \<^verbatim>\<open>int\<close> truncates, and the indices are
  not negative. The quotient is taken exactly (the library divides in double precision,
  which gives the same integer part for arrays of any size a machine can hold).
\<close>

definition int_mean :: "int list \<Rightarrow> error + int" where
  "int_mean a = (if a = [] then Inl ValueErrorNaN else Inr (sum_list a div int (length a)))"

text \<open>\<^verbatim>\<open>str\<close> of an integer: its decimal digits.\<close>

fun decimal :: "nat \<Rightarrow> string" where
  "decimal n =
     (if n < 10 then [''0123456789'' ! n]
      else decimal (n div 10) @ [''0123456789'' ! (n mod 10)])"

definition str :: "int \<Rightarrow> string" where
  "str i = (if i < 0 then CHR ''-'' # decimal (nat (- i)) else decimal (nat i))"

section \<open>The program\<close>

subsection \<open>\<^verbatim>\<open>specimen_mask\<close>\<close>

text \<open>\<^verbatim>\<open>np.where(labels == largest, 255, 0).astype(np.uint8)\<close>\<close>

definition select_label :: "nat list list \<Rightarrow> nat \<Rightarrow> gray" where
  "select_label labels largest = map (map (\<lambda>l. if l = largest then 255 else 0)) labels"

definition specimen_mask :: "cv \<Rightarrow> image \<Rightarrow> gray" where
  "specimen_mask ops img =
     (let gray = cvtColor ops img;
          blur = GaussianBlur ops gray;
          th = threshold_otsu ops blur;
          (n_labels, labels, stats) = connectedComponentsWithStats ops th
      in if n_labels \<le> 1 then th
         else let largest = 1 + argmax (tl stats);
                  mask = select_label labels largest;
                  kernel = ellipse 9
              in morph_close kernel 2 mask)"

subsection \<open>\<^verbatim>\<open>crack_mask\<close>\<close>

definition crack_mask :: "cv \<Rightarrow> image \<Rightarrow> gray \<Rightarrow> error + gray" where
  "crack_mask ops img specimen =
     (let gray = cvtColor ops img;
          enhanced = clahe ops gray;
          blackhat = morph_blackhat (ellipse 11) enhanced;
          cracks = threshold_otsu ops blackhat
      in case bitwise_and cracks specimen of
           Inl e \<Rightarrow> Inl e
         | Inr cracks \<Rightarrow>
             (let k = ellipse 3;
                  cracks = dilate k 1 cracks;
                  cracks = morph_close k 2 cracks
              in Inr cracks))"

subsection \<open>\<^verbatim>\<open>count_particles\<close>\<close>

text \<open>
  \<^verbatim>\<open>cv2.putText\<close> writes into the array it is given, and \<^verbatim>\<open>image.copy()\<close> makes a
  new array. To tell the two apart the colour arrays live in a store, a list of arrays
  addressed by index: the image is a reference into the store, the copy is a new cell
  at its end, and \<^verbatim>\<open>putText\<close> updates the cell of the overlay. The masks are values:
  every library call that makes one returns a new array and writes to none.

  The loop \<^verbatim>\<open>for label in range(1, n_labels)\<close> runs over the list of the labels; its
  state is the count and the store.
\<close>

fun count_loop ::
  "cv \<Rightarrow> nat list list \<Rightarrow> int list \<Rightarrow> int \<Rightarrow> nat \<Rightarrow> nat list \<Rightarrow> int \<times> image list
     \<Rightarrow> error + (int \<times> image list)" where
  "count_loop ops labels stats min_area overlay [] s = Inr s"
| "count_loop ops labels stats min_area overlay (label # rest) (count, st) =
     (let area = stats ! label
      in if area < min_area then count_loop ops labels stats min_area overlay rest (count, st)
         else let count = count + 1;
                  ps = np_where_eq labels label
              in case int_mean (map fst ps) of
                   Inl e \<Rightarrow> Inl e
                 | Inr cy \<Rightarrow>
                     (case int_mean (map snd ps) of
                        Inl e \<Rightarrow> Inl e
                      | Inr cx \<Rightarrow>
                          count_loop ops labels stats min_area overlay rest
                            (count, st[overlay := putText ops (st ! overlay) (str count)
                                                    (cx - 8, cy + 5)])))"

text \<open>
  The first part of \<^verbatim>\<open>count_particles\<close>, up to the opening: the mask of the particle
  candidates, which is the mask that is labelled. It has a name of its own so that a
  theorem can speak of it.
\<close>

definition particle_mask :: "cv \<Rightarrow> image \<Rightarrow> error + gray" where
  "particle_mask ops img =
     (let specimen = specimen_mask ops img
      in case crack_mask ops img specimen of
           Inl e \<Rightarrow> Inl e
         | Inr cracks \<Rightarrow>
             (case bitwise_and specimen (bitwise_not cracks) of
                Inl e \<Rightarrow> Inl e
              | Inr particles \<Rightarrow> Inr (morph_open (ellipse 3) 1 particles)))"

definition count_particles ::
  "cv \<Rightarrow> image list \<Rightarrow> nat \<Rightarrow> int \<Rightarrow> error + (int \<times> nat \<times> image list)" where
  "count_particles ops st image_ref min_area =
     (case particle_mask ops (st ! image_ref) of
        Inl e \<Rightarrow> Inl e
      | Inr particles \<Rightarrow>
          (let (n_labels, labels, stats) = connectedComponentsWithStats ops particles;
               overlay = length st;
               st = st @ [st ! image_ref]
           in (case count_loop ops labels stats min_area overlay [1..<n_labels] (0, st) of
                 Inl e \<Rightarrow> Inl e
               | Inr (count, st) \<Rightarrow> Inr (count, overlay, st))))"

section \<open>Arrays of the same shape\<close>

lemma shape_length: "shape a = shape b \<Longrightarrow> length a = length b"
  unfolding shape_def by (rule map_eq_imp_length_eq)

lemma shape_row: "shape a = shape b \<Longrightarrow> y < length a \<Longrightarrow> length (a ! y) = length (b ! y)"
proof -
  assume s: "shape a = shape b" and y: "y < length a"
  have "map length a ! y = map length b ! y" using s by (simp add: shape_def)
  then show ?thesis using y shape_length[OF s] by simp
qed

lemma shape_tabulate [simp]: "shape (tabulate a f) = shape a"
  by (auto simp: shape_def tabulate_def intro: nth_equalityI)

lemma shape_map_map [simp]: "shape (map (map f) a) = shape a"
  by (simp add: shape_def)

lemma inside_shape: "shape a = shape b \<Longrightarrow> inside a p = inside b p"
  using shape_length[of a b] shape_row[of a b "nat (fst p)"]
  by (auto simp: inside_def)

lemma positions_shape: "shape a = shape b \<Longrightarrow> positions a = positions b"
proof -
  assume s: "shape a = shape b"
  have "map (\<lambda>y. map (\<lambda>x. (int y, int x)) [0..<length (a ! y)]) [0..<length a]
      = map (\<lambda>y. map (\<lambda>x. (int y, int x)) [0..<length (b ! y)]) [0..<length b]"
    using shape_length[OF s] shape_row[OF s] by (intro map_cong) auto
  then show ?thesis by (simp add: positions_def)
qed

lemma px_tabulate: "inside a p \<Longrightarrow> px (tabulate a f) p = f p"
  by (cases p) (auto simp: inside_def px_def tabulate_def)

lemma px_map_map: "inside a p \<Longrightarrow> px (map (map f) a) p = f (px a p)"
  by (auto simp: inside_def px_def)

lemma set_positions: "set (positions m) = {p. inside m p}"
proof (intro set_eqI iffI)
  fix p assume "p \<in> set (positions m)"
  then show "p \<in> {p. inside m p}"
    by (auto simp: positions_def inside_def)
next
  fix p assume "p \<in> {p. inside m p}"
  then have a: "nat (fst p) < length m" "nat (snd p) < length (m ! nat (fst p))"
    and b: "p = (int (nat (fst p)), int (nat (snd p)))"
    by (auto simp: inside_def)
  show "p \<in> set (positions m)"
    unfolding positions_def set_concat set_map
    apply (rule UN_I[where a="map (\<lambda>x. (int (nat (fst p)), int x)) [0..<length (m ! nat (fst p))]"])
    using a apply force
    apply (subst b)
    using a apply force
    done
qed

section \<open>What the model relies on from the library\<close>

text \<open>
  Of the labelling: there is at least the background label; the label image has the
  size of the mask; there is one area for each label, and it is the number of pixels
  that carry the label; every label from 1 on is carried by some pixel; a pixel has a
  label other than 0 exactly when it is foreground, and its label is one of the labels
  counted.
\<close>

definition labelling_ok :: "(gray \<Rightarrow> nat \<times> nat list list \<times> int list) \<Rightarrow> bool" where
  "labelling_ok f =
     (\<forall>m. case f m of (n_labels, labels, stats) \<Rightarrow>
        1 \<le> n_labels \<and> shape labels = shape m \<and> length stats = n_labels \<and>
        (\<forall>l. l < n_labels \<longrightarrow> stats ! l = int (length (np_where_eq labels l))) \<and>
        (\<forall>l. 1 \<le> l \<and> l < n_labels \<longrightarrow> np_where_eq labels l \<noteq> []) \<and>
        (\<forall>p. inside m p \<longrightarrow> (px labels p \<noteq> 0) = (px m p \<noteq> 0) \<and> px labels p < n_labels))"

text \<open>
  Of the blur and of the contrast enhancement: they return an array of the size of
  their input. With that, no \<^verbatim>\<open>bitwise_and\<close> of the pipeline sees two sizes.
\<close>

definition keeps_shape :: "(gray \<Rightarrow> gray) \<Rightarrow> bool" where
  "keeps_shape f = (\<forall>g. shape (f g) = shape g)"

definition cv_ok :: "cv \<Rightarrow> bool" where
  "cv_ok ops =
     (keeps_shape (GaussianBlur ops) \<and> keeps_shape (clahe ops) \<and>
      labelling_ok (connectedComponentsWithStats ops))"

lemma labelling_okD:
  assumes "labelling_ok f" and "f m = (n_labels, labels, stats)"
  shows "1 \<le> n_labels" and "shape labels = shape m" and "length stats = n_labels"
    and "\<And>l. l < n_labels \<Longrightarrow> stats ! l = int (length (np_where_eq labels l))"
    and "\<And>l. 1 \<le> l \<Longrightarrow> l < n_labels \<Longrightarrow> np_where_eq labels l \<noteq> []"
    and "\<And>p. inside m p \<Longrightarrow> (px labels p \<noteq> 0) = (px m p \<noteq> 0)"
    and "\<And>p. inside m p \<Longrightarrow> px labels p < n_labels"
proof -
  have "case f m of (n_labels, labels, stats) \<Rightarrow>
        1 \<le> n_labels \<and> shape labels = shape m \<and> length stats = n_labels \<and>
        (\<forall>l. l < n_labels \<longrightarrow> stats ! l = int (length (np_where_eq labels l))) \<and>
        (\<forall>l. 1 \<le> l \<and> l < n_labels \<longrightarrow> np_where_eq labels l \<noteq> []) \<and>
        (\<forall>p. inside m p \<longrightarrow> (px labels p \<noteq> 0) = (px m p \<noteq> 0) \<and> px labels p < n_labels)"
    using assms(1) unfolding labelling_ok_def by (rule spec)
  then have a: "1 \<le> n_labels \<and> shape labels = shape m \<and> length stats = n_labels \<and>
        (\<forall>l. l < n_labels \<longrightarrow> stats ! l = int (length (np_where_eq labels l))) \<and>
        (\<forall>l. 1 \<le> l \<and> l < n_labels \<longrightarrow> np_where_eq labels l \<noteq> []) \<and>
        (\<forall>p. inside m p \<longrightarrow> (px labels p \<noteq> 0) = (px m p \<noteq> 0) \<and> px labels p < n_labels)"
    unfolding assms(2) prod.case .
  from a show "1 \<le> n_labels" and "shape labels = shape m" and "length stats = n_labels"
    by blast+
  from a show "\<And>l. l < n_labels \<Longrightarrow> stats ! l = int (length (np_where_eq labels l))"
    by blast
  from a show "\<And>l. 1 \<le> l \<Longrightarrow> l < n_labels \<Longrightarrow> np_where_eq labels l \<noteq> []"
    by blast
  from a show "\<And>p. inside m p \<Longrightarrow> (px labels p \<noteq> 0) = (px m p \<noteq> 0)"
    by blast
  from a show "\<And>p. inside m p \<Longrightarrow> px labels p < n_labels"
    by blast
qed

lemma cv_ok_labelling: "cv_ok ops \<Longrightarrow> labelling_ok (connectedComponentsWithStats ops)"
  by (simp add: cv_ok_def)

section \<open>Shapes along the pipeline\<close>

lemma shape_dilate1 [simp]: "shape (dilate1 k a) = shape a"
  by (simp add: dilate1_def)

lemma shape_erode1 [simp]: "shape (erode1 k a) = shape a"
  by (simp add: erode1_def)

lemma shape_dilate [simp]: "shape (dilate k n a) = shape a"
  unfolding dilate_def by (induction n) simp_all

lemma shape_erode [simp]: "shape (erode k n a) = shape a"
  unfolding erode_def by (induction n) simp_all

lemma shape_morph_close [simp]: "shape (morph_close k n a) = shape a"
  by (simp add: morph_close_def)

lemma shape_morph_open [simp]: "shape (morph_open k n a) = shape a"
  by (simp add: morph_open_def)

lemma shape_morph_blackhat [simp]: "shape (morph_blackhat k a) = shape a"
  by (simp add: morph_blackhat_def Let_def)

lemma shape_threshold_otsu [simp]: "shape (threshold_otsu ops a) = shape a"
  by (simp add: threshold_otsu_def threshold_binary_def)

lemma shape_bitwise_not [simp]: "shape (bitwise_not a) = shape a"
  by (simp add: bitwise_not_def)

lemma shape_select_label [simp]: "shape (select_label labels l) = shape labels"
  by (simp add: select_label_def)

lemma bitwise_and_Inr: "bitwise_and a b = Inr c \<Longrightarrow> shape c = shape a \<and> shape a = shape b"
  by (auto simp: bitwise_and_def split: if_splits)

lemma bitwise_and_same_shape:
  "shape a = shape b \<Longrightarrow> bitwise_and a b = Inr (tabulate a (\<lambda>p. px a p AND px b p))"
  by (simp add: bitwise_and_def)

lemma shape_specimen_mask:
  assumes "labelling_ok (connectedComponentsWithStats ops)"
  shows "shape (specimen_mask ops img) = shape (GaussianBlur ops (cvtColor ops img))"
proof -
  let ?th = "threshold_otsu ops (GaussianBlur ops (cvtColor ops img))"
  obtain n labels stats where c: "connectedComponentsWithStats ops ?th = (n, labels, stats)"
    by (cases "connectedComponentsWithStats ops ?th")
  have "shape labels = shape ?th" using assms c by (rule labelling_okD(2))
  then show ?thesis by (simp add: specimen_mask_def Let_def c)
qed

lemma crack_mask_returns:
  assumes "shape specimen = shape (clahe ops (cvtColor ops img))"
  shows "\<exists>cracks. crack_mask ops img specimen = Inr cracks \<and> shape cracks = shape specimen"
  using assms by (simp add: crack_mask_def Let_def bitwise_and_same_shape)

lemma particle_mask_returns:
  assumes "cv_ok ops"
  shows "\<exists>particles. particle_mask ops img = Inr particles
           \<and> shape particles = shape (cvtColor ops img)"
proof -
  let ?g = "cvtColor ops img"
  have s: "shape (specimen_mask ops img) = shape ?g" "shape (clahe ops ?g) = shape ?g"
    using assms by (simp_all add: shape_specimen_mask cv_ok_def keeps_shape_def)
  then obtain cracks where c: "crack_mask ops img (specimen_mask ops img) = Inr cracks"
    "shape cracks = shape (specimen_mask ops img)"
    using crack_mask_returns[of "specimen_mask ops img" ops img] by auto
  then have "shape (specimen_mask ops img) = shape (bitwise_not cracks)" by simp
  from bitwise_and_same_shape[OF this] c s show ?thesis
    by (simp add: particle_mask_def Let_def)
qed

section \<open>The counting loop, as the specification words it\<close>

text \<open>
  The labels that pass the area filter, in ascending order; the ranks they get; the
  centroid of a label (mean row and mean column of its pixels, truncated); and the text
  drawn for a ranked label.
\<close>

definition kept :: "int list \<Rightarrow> int \<Rightarrow> nat list \<Rightarrow> nat list" where
  "kept stats min_area ls = filter (\<lambda>l. \<not> stats ! l < min_area) ls"

fun rank_from :: "int \<Rightarrow> nat list \<Rightarrow> (int \<times> nat) list" where
  "rank_from c [] = []"
| "rank_from c (l # ls) = (c + 1, l) # rank_from (c + 1) ls"

definition centroid :: "nat list list \<Rightarrow> nat \<Rightarrow> pos" where
  "centroid labels label =
     (let ps = np_where_eq labels label
      in (sum_list (map fst ps) div int (length ps), sum_list (map snd ps) div int (length ps)))"

definition draw :: "cv \<Rightarrow> nat list list \<Rightarrow> image \<Rightarrow> int \<times> nat \<Rightarrow> image" where
  "draw ops labels img rl =
     putText ops img (str (fst rl))
       (snd (centroid labels (snd rl)) - 8, fst (centroid labels (snd rl)) + 5)"

lemma length_rank_from [simp]: "length (rank_from c ls) = length ls"
  by (induction ls arbitrary: c) simp_all

lemma rank_from_nth: "i < length ls \<Longrightarrow> rank_from c ls ! i = (c + 1 + int i, ls ! i)"
proof (induction ls arbitrary: c i)
  case Nil
  then show ?case by simp
next
  case (Cons l ls)
  then show ?case by (cases i) simp_all
qed

lemma int_mean_nonempty: "a \<noteq> [] \<Longrightarrow> int_mean a = Inr (sum_list a div int (length a))"
  by (simp add: int_mean_def)

lemma count_loop_run:
  assumes "\<forall>l\<in>set ls. np_where_eq labels l \<noteq> []" and "overlay < length st"
  shows "count_loop ops labels stats min_area overlay ls (c, st) =
     Inr (c + int (length (kept stats min_area ls)),
          st[overlay := foldl (draw ops labels) (st ! overlay)
                          (rank_from c (kept stats min_area ls))])"
  using assms
proof (induction ls arbitrary: c st)
  case Nil
  then show ?case by (simp add: kept_def)
next
  case (Cons l ls)
  have ne: "np_where_eq labels l \<noteq> []" and rest: "\<forall>l\<in>set ls. np_where_eq labels l \<noteq> []"
    using Cons.prems(1) by simp_all
  show ?case
  proof (cases "stats ! l < min_area")
    case True
    then have k: "kept stats min_area (l # ls) = kept stats min_area ls"
      by (simp add: kept_def)
    have "count_loop ops labels stats min_area overlay (l # ls) (c, st) =
        count_loop ops labels stats min_area overlay ls (c, st)"
      using True by simp
    with Cons.IH[OF rest Cons.prems(2), of c] show ?thesis
      unfolding k by simp
  next
    case False
    then have k: "kept stats min_area (l # ls) = l # kept stats min_area ls"
      by (simp add: kept_def)
    let ?v = "draw ops labels (st ! overlay) (c + 1, l)"
    let ?st = "st[overlay := ?v]"
    have len: "overlay < length ?st" using Cons.prems(2) by simp
    have my: "int_mean (map fst (np_where_eq labels l)) = Inr (fst (centroid labels l))"
      using ne by (simp add: int_mean_nonempty centroid_def Let_def)
    have mx: "int_mean (map snd (np_where_eq labels l)) = Inr (snd (centroid labels l))"
      using ne by (simp add: int_mean_nonempty centroid_def Let_def)
    have step: "count_loop ops labels stats min_area overlay (l # ls) (c, st) =
        count_loop ops labels stats min_area overlay ls (c + 1, ?st)"
      using False by (simp add: Let_def my mx draw_def)
    have "?st ! overlay = ?v" using Cons.prems(2) by simp
    with Cons.IH[OF rest len, of "c + 1"] show ?thesis
      unfolding step k by (simp add: add.assoc)
  qed
qed

section \<open>An instance of the library parameters\<close>

text \<open>
  To run the model on an input, the parameters need values. \<open>cv_ref\<close> gives them:
  \<^item> the grey value of a BGR pixel is \<open>0.299 R + 0.587 G + 0.114 B\<close>, in the fixed point
    arithmetic of the library (weights 4899, 9617 and 1868 over \<open>2\<^sup>1\<^sup>4\<close>, rounded);
  \<^item> the blur of size 5 with \<open>sigma = 0\<close> is the binomial kernel \<open>(1, 4, 6, 4, 1) / 16\<close>
    in both directions, on the image reflected at its borders without repeating the
    border pixel, rounded to the nearest byte;
  \<^item> Otsu's threshold is the first value \<open>t\<close> that maximises the variance between the
    pixels up to \<open>t\<close> and the pixels above \<open>t\<close> (compared exactly, as fractions);
  \<^item> the contrast enhancement is CLAHE for an image of 8 by 8 pixels, where each tile
    of the 8 by 8 grid is one pixel: the clip limit is 1, the table of a tile maps the
    values below its pixel to 0 and the others to 255, and a pixel gets the mean of the
    tables of its tile and of the tiles above and to the left (the tile itself at the
    border), rounded. On an image of another size this is not what the library computes;
  \<^item> the labelling connects a pixel to the eight pixels around it, and numbers the
    components in the order in which a scan by blocks of 2 by 2 pixels (block rows from
    the top, blocks from the left) first meets them, as the library's block-based
    algorithms do;
  \<^item> the text drawing is a stand-in that colours the pixel at the origin of the text,
    where the library draws the glyphs of the string from there.
\<close>

subsection \<open>The labelling\<close>

text \<open>
  An unlabelled foreground pixel met by the scan gets the next label, and the label
  floods from it to every foreground pixel reachable through the eight neighbours.
\<close>

definition nbrs8 :: "pos \<Rightarrow> pos list" where
  "nbrs8 p =
     [(fst p - 1, snd p - 1), (fst p - 1, snd p), (fst p - 1, snd p + 1),
      (fst p, snd p - 1), (fst p, snd p + 1),
      (fst p + 1, snd p - 1), (fst p + 1, snd p), (fst p + 1, snd p + 1)]"

definition unlabelled :: "gray \<Rightarrow> (pos \<Rightarrow> nat) \<Rightarrow> pos set" where
  "unlabelled m L = {p. fgpix m p \<and> L p = 0}"

function fill :: "gray \<Rightarrow> nat \<Rightarrow> (pos \<Rightarrow> nat) \<Rightarrow> pos list \<Rightarrow> (pos \<Rightarrow> nat)" where
  "fill m n L [] = L"
| "fill m n L (p # st) =
     (if fgpix m p \<and> L p = 0 then fill m n (L(p := Suc n)) (nbrs8 p @ st)
      else fill m n L st)"
  by pat_completeness auto

lemma finite_unlabelled: "finite (unlabelled m L)"
proof -
  have "unlabelled m L \<subseteq> set (positions m)"
    by (auto simp: unlabelled_def set_positions fgpix_def)
  then show ?thesis by (rule finite_subset) simp
qed

termination fill
proof (relation "measures [\<lambda>(m, n, L, st). card (unlabelled m L), \<lambda>(m, n, L, st). length st]")
  show "wf (measures [\<lambda>(m, n, L, st). card (unlabelled m L), \<lambda>(m, n, L, st). length st])"
    by simp
next
  fix m :: gray and n :: nat and L :: "pos \<Rightarrow> nat" and p :: pos and st :: "pos list"
  assume a: "fgpix m p \<and> L p = 0"
  have "unlabelled m (L(p := Suc n)) \<subset> unlabelled m L"
    using a by (auto simp: unlabelled_def)
  then have "card (unlabelled m (L(p := Suc n))) < card (unlabelled m L)"
    by (rule psubset_card_mono[OF finite_unlabelled])
  then show "((m, n, L(p := Suc n), nbrs8 p @ st), (m, n, L, p # st))
      \<in> measures [\<lambda>(m, n, L, st). card (unlabelled m L), \<lambda>(m, n, L, st). length st]"
    by simp
next
  fix m :: gray and n :: nat and L :: "pos \<Rightarrow> nat" and p :: pos and st :: "pos list"
  show "((m, n, L, st), (m, n, L, p # st))
      \<in> measures [\<lambda>(m, n, L, st). card (unlabelled m L), \<lambda>(m, n, L, st). length st]"
    by simp
qed

declare fill.simps [simp del]

text \<open>
  The scan over a list of positions: \<open>n\<close> is the number of components labelled so far,
  \<open>L\<close> the labels given so far (0 where there is none).
\<close>

fun scan :: "gray \<Rightarrow> pos list \<Rightarrow> nat \<times> (pos \<Rightarrow> nat) \<Rightarrow> nat \<times> (pos \<Rightarrow> nat)" where
  "scan m [] s = s"
| "scan m (p # ps) (n, L) =
     (if fgpix m p \<and> L p = 0 then scan m ps (Suc n, fill m n L [p])
      else scan m ps (n, L))"

text \<open>The positions of an array block by block.\<close>

definition width :: "'a list list \<Rightarrow> nat" where
  "width img = foldr max (map length img) 0"

definition block :: "nat \<Rightarrow> nat \<Rightarrow> pos list" where
  "block i j =
     [(2 * int i, 2 * int j), (2 * int i, 2 * int j + 1),
      (2 * int i + 1, 2 * int j), (2 * int i + 1, 2 * int j + 1)]"

definition block_positions :: "'a list list \<Rightarrow> pos list" where
  "block_positions img =
     concat (map (\<lambda>i. concat (map (\<lambda>j. filter (inside img) (block i j))
                                 [0..<Suc (width img) div 2]))
                 [0..<Suc (length img) div 2])"

lemma length_le_width: "y < length img \<Longrightarrow> length (img ! y) \<le> width img"
  unfolding width_def
proof (induction img arbitrary: y)
  case Nil
  then show ?case by simp
next
  case (Cons r img)
  show ?case
  proof (cases y)
    case 0
    then show ?thesis by simp
  next
    case (Suc n)
    then have "n < length img" using Cons.prems by simp
    then have "length (img ! n) \<le> foldr max (map length img) 0" by (rule Cons.IH)
    then have "length (img ! n) \<le> max (length r) (foldr max (map length img) 0)"
      by (rule max.coboundedI2)
    then show ?thesis using Suc by simp
  qed
qed

lemma in_block: "0 \<le> fst p \<Longrightarrow> 0 \<le> snd p \<Longrightarrow> p \<in> set (block (nat (fst p) div 2) (nat (snd p) div 2))"
proof -
  assume a: "0 \<le> fst p" "0 \<le> snd p"
  obtain y x where p: "p = (y, x)" by (cases p)
  have "2 * int (nat y div 2) = y \<or> 2 * int (nat y div 2) + 1 = y" using a p by auto
  moreover have "2 * int (nat x div 2) = x \<or> 2 * int (nat x div 2) + 1 = x" using a p by auto
  ultimately show ?thesis unfolding p block_def by auto
qed

lemma in_concat_map: "y \<in> set xs \<Longrightarrow> x \<in> set (f y) \<Longrightarrow> x \<in> set (concat (map f xs))"
  by auto

lemma block_positions_cover: "inside img p \<Longrightarrow> p \<in> set (block_positions img)"
proof -
  assume i: "inside img p"
  then have a: "0 \<le> fst p" "0 \<le> snd p" and y: "nat (fst p) < length img"
    and x: "nat (snd p) < length (img ! nat (fst p))"
    by (simp_all add: inside_def)
  let ?i = "nat (fst p) div 2" and ?j = "nat (snd p) div 2"
  have "nat (snd p) < width img" using x length_le_width[OF y] by simp
  then have j: "?j \<in> set [0..<Suc (width img) div 2]" by auto
  have i': "?i \<in> set [0..<Suc (length img) div 2]" using y by auto
  have f: "p \<in> set (filter (inside img) (block ?i ?j))" using in_block[OF a] i by simp
  have "p \<in> set (concat (map (\<lambda>j. filter (inside img) (block ?i j))
                                 [0..<Suc (width img) div 2]))"
    using j f by (rule in_concat_map)
  with i' show ?thesis
    unfolding block_positions_def by (rule in_concat_map)
qed

definition label_components :: "gray \<Rightarrow> nat \<times> nat list list \<times> int list" where
  "label_components m =
     (let (n, L) = scan m (block_positions m) (0, \<lambda>p. 0);
          labels = tabulate m L
      in (Suc n, labels, map (\<lambda>l. int (length (np_where_eq labels l))) [0..<Suc n]))"

lemma fill_Nil: "fill m n L [] = L"
  by (simp add: fill.simps)

lemma fill_hit: "fgpix m p \<Longrightarrow> L p = 0 \<Longrightarrow>
    fill m n L (p # st) = fill m n (L(p := Suc n)) (nbrs8 p @ st)"
  by (simp add: fill.simps)

lemma fill_miss: "\<not> (fgpix m p \<and> L p = 0) \<Longrightarrow> fill m n L (p # st) = fill m n L st"
  by (auto simp: fill.simps)

lemma fill_frame: "L p \<noteq> 0 \<Longrightarrow> fill m n L st p = L p"
proof (induction m n L st rule: fill.induct)
  case (1 m n L)
  then show ?case by (simp add: fill_Nil)
next
  case (2 m n L q st)
  show ?case
  proof (cases "fgpix m q \<and> L q = 0")
    case True
    then have pq: "p \<noteq> q" using 2(3) by auto
    then have nz: "(L(q := Suc n)) p \<noteq> 0" using 2(3) by simp
    have "fill m n L (q # st) p = fill m n (L(q := Suc n)) (nbrs8 q @ st) p"
      using True by (simp add: fill_hit)
    also have "\<dots> = (L(q := Suc n)) p" by (rule 2(1)[OF True nz])
    also have "\<dots> = L p" using pq by simp
    finally show ?thesis .
  next
    case False
    have "fill m n L (q # st) p = fill m n L st p" using False by (simp add: fill_miss)
    also have "\<dots> = L p" by (rule 2(2)[OF False 2(3)])
    finally show ?thesis .
  qed
qed

lemma fill_new: "fill m n L st p \<noteq> L p \<Longrightarrow> fill m n L st p = Suc n \<and> fgpix m p"
proof (induction m n L st rule: fill.induct)
  case (1 m n L)
  then show ?case by (simp add: fill_Nil)
next
  case (2 m n L q st)
  show ?case
  proof (cases "fgpix m q \<and> L q = 0")
    case True
    have eq: "fill m n L (q # st) = fill m n (L(q := Suc n)) (nbrs8 q @ st)"
      using True by (simp add: fill_hit)
    show ?thesis
    proof (cases "p = q")
      case True
      have "fill m n (L(q := Suc n)) (nbrs8 q @ st) q = (L(q := Suc n)) q"
        by (rule fill_frame) simp
      then have "fill m n L (q # st) q = Suc n" by (simp add: eq)
      with True \<open>fgpix m q \<and> L q = 0\<close> show ?thesis by simp
    next
      case False
      then have ne: "fill m n (L(q := Suc n)) (nbrs8 q @ st) p \<noteq> (L(q := Suc n)) p"
        using 2(3) by (simp add: eq)
      have "fill m n (L(q := Suc n)) (nbrs8 q @ st) p = Suc n \<and> fgpix m p"
        by (rule 2(1)[OF \<open>fgpix m q \<and> L q = 0\<close> ne])
      then show ?thesis by (simp add: eq)
    qed
  next
    case False
    have eq: "fill m n L (q # st) = fill m n L st" using False by (rule fill_miss)
    then have ne: "fill m n L st p \<noteq> L p" using 2(3) by simp
    have "fill m n L st p = Suc n \<and> fgpix m p" by (rule 2(2)[OF False ne])
    then show ?thesis by (simp add: eq)
  qed
qed

lemma fill_seed: "fgpix m p \<Longrightarrow> L p = 0 \<Longrightarrow> fill m n L (p # st) p = Suc n"
proof -
  assume a: "fgpix m p" "L p = 0"
  have "fill m n (L(p := Suc n)) (nbrs8 p @ st) p = (L(p := Suc n)) p"
    by (rule fill_frame) simp
  moreover have "fill m n L (p # st) = fill m n (L(p := Suc n)) (nbrs8 p @ st)"
    using a by (rule fill_hit)
  ultimately show ?thesis by simp
qed

definition labelled_ok :: "gray \<Rightarrow> nat \<times> (pos \<Rightarrow> nat) \<Rightarrow> bool" where
  "labelled_ok m s =
     ((\<forall>p. snd s p \<noteq> 0 \<longrightarrow> fgpix m p) \<and> (\<forall>p. snd s p \<le> fst s) \<and>
      (\<forall>l. 1 \<le> l \<and> l \<le> fst s \<longrightarrow> (\<exists>p. snd s p = l)))"

lemma labelled_ok_fill:
  assumes ok: "labelled_ok m (n, L)" and p: "fgpix m p" "L p = 0"
  shows "labelled_ok m (Suc n, fill m n L [p])"
proof -
  let ?L = "fill m n L [p]"
  have ok1: "\<And>q. L q \<noteq> 0 \<Longrightarrow> fgpix m q"
    using ok unfolding labelled_ok_def by (metis snd_conv)
  have ok2: "\<And>q. L q \<le> n"
    using ok unfolding labelled_ok_def by (metis fst_conv snd_conv)
  have ok3: "\<And>l. 1 \<le> l \<Longrightarrow> l \<le> n \<Longrightarrow> \<exists>q. L q = l"
    using ok unfolding labelled_ok_def by (metis fst_conv snd_conv)
  have a: "\<forall>q. ?L q \<noteq> 0 \<longrightarrow> fgpix m q"
  proof (intro allI impI)
    fix q assume "?L q \<noteq> 0"
    show "fgpix m q"
    proof (cases "?L q = L q")
      case True
      with \<open>?L q \<noteq> 0\<close> have "L q \<noteq> 0" by simp
      then show ?thesis by (rule ok1)
    next
      case False
      from fill_new[OF this] show ?thesis by simp
    qed
  qed
  have b: "\<forall>q. ?L q \<le> Suc n"
  proof
    fix q
    show "?L q \<le> Suc n"
    proof (cases "?L q = L q")
      case True
      with ok2[of q] show ?thesis by simp
    next
      case False
      from fill_new[OF this] show ?thesis by simp
    qed
  qed
  have c: "\<forall>l. 1 \<le> l \<and> l \<le> Suc n \<longrightarrow> (\<exists>q. ?L q = l)"
  proof (intro allI impI)
    fix l assume l: "1 \<le> l \<and> l \<le> Suc n"
    show "\<exists>q. ?L q = l"
    proof (cases "l = Suc n")
      case True
      have "?L p = Suc n" using p by (rule fill_seed)
      with True show ?thesis by blast
    next
      case False
      with l ok3[of l] obtain q where q: "L q = l" by auto
      then have "L q \<noteq> 0" using l by simp
      then have "?L q = L q" by (rule fill_frame)
      with q show ?thesis by blast
    qed
  qed
  from a b c show ?thesis by (simp add: labelled_ok_def)
qed

lemma scan_hit: "fgpix m p \<Longrightarrow> L p = 0 \<Longrightarrow>
    scan m (p # ps) (n, L) = scan m ps (Suc n, fill m n L [p])"
  by simp

lemma scan_miss: "\<not> (fgpix m p \<and> L p = 0) \<Longrightarrow> scan m (p # ps) (n, L) = scan m ps (n, L)"
  by auto

lemma scan_ok: "labelled_ok m s \<Longrightarrow> labelled_ok m (scan m ps s)"
proof (induction ps arbitrary: s)
  case Nil
  then show ?case by simp
next
  case (Cons p ps)
  obtain n L where s: "s = (n, L)" by (cases s)
  show ?case
  proof (cases "fgpix m p \<and> L p = 0")
    case True
    then have "labelled_ok m (Suc n, fill m n L [p])"
      using labelled_ok_fill Cons.prems s by blast
    from Cons.IH[OF this] show ?thesis using True by (simp add: s)
  next
    case False
    have eq: "scan m (p # ps) (n, L) = scan m ps (n, L)" using False by (rule scan_miss)
    from Cons.IH[OF Cons.prems] show ?thesis by (simp only: s eq)
  qed
qed

lemma scan_frame: "snd s p \<noteq> 0 \<Longrightarrow> snd (scan m ps s) p = snd s p"
proof (induction ps arbitrary: s)
  case Nil
  then show ?case by simp
next
  case (Cons q ps)
  obtain n L where s: "s = (n, L)" by (cases s)
  have nz: "L p \<noteq> 0" using Cons.prems s by simp
  show ?case
  proof (cases "fgpix m q \<and> L q = 0")
    case True
    have f: "fill m n L [q] p = L p" using nz by (rule fill_frame)
    then have "snd (Suc n, fill m n L [q]) p \<noteq> 0" using nz by simp
    from Cons.IH[OF this] have "snd (scan m ps (Suc n, fill m n L [q])) p = L p"
      using f by simp
    then show ?thesis using True by (simp add: s)
  next
    case False
    have eq: "scan m (q # ps) (n, L) = scan m ps (n, L)" using False by (rule scan_miss)
    from Cons.IH[OF Cons.prems] show ?thesis by (simp only: s eq)
  qed
qed

lemma scan_covers: "p \<in> set ps \<Longrightarrow> fgpix m p \<Longrightarrow> snd (scan m ps s) p \<noteq> 0"
proof (induction ps arbitrary: s)
  case Nil
  then show ?case by simp
next
  case (Cons q ps)
  obtain n L where s: "s = (n, L)" by (cases s)
  show ?case
  proof (cases "fgpix m q \<and> L q = 0")
    case True
    note T = this
    have eq: "scan m (q # ps) s = scan m ps (Suc n, fill m n L [q])"
      using T by (simp add: s)
    show ?thesis
    proof (cases "p = q")
      case True
      have "fill m n L [q] q = Suc n" using T by (simp add: fill_seed)
      then have "snd (Suc n, fill m n L [q]) p \<noteq> 0" using True by simp
      from scan_frame[OF this, of m ps] this show ?thesis by (simp add: eq)
    next
      case False
      then have "p \<in> set ps" using Cons.prems by simp
      from Cons.IH[OF this Cons.prems(2)] show ?thesis by (simp add: eq)
    qed
  next
    case False
    note F = this
    have eq: "scan m (q # ps) s = scan m ps s"
      unfolding s using F by (rule scan_miss)
    show ?thesis
    proof (cases "p = q")
      case True
      then have "snd s p \<noteq> 0" using F Cons.prems(2) s by auto
      from scan_frame[OF this, of m ps] this show ?thesis by (simp add: eq)
    next
      case False
      then have "p \<in> set ps" using Cons.prems by simp
      from Cons.IH[OF this Cons.prems(2)] show ?thesis by (simp add: eq)
    qed
  qed
qed

lemma np_where_tabulate:
  "np_where_eq (tabulate m L) l = filter (\<lambda>p. L p = l) (positions m)"
proof -
  have "positions (tabulate m L) = positions m"
    by (rule positions_shape) simp
  moreover have "filter (\<lambda>p. px (tabulate m L) p = l) (positions m)
      = filter (\<lambda>p. L p = l) (positions m)"
    by (rule filter_cong) (auto simp: set_positions px_tabulate)
  ultimately show ?thesis by (simp add: np_where_eq_def)
qed

text \<open>What the labelling returns, in terms of the scan.\<close>

lemma lc_scan:
  obtains n L where
    "label_components m =
       (Suc n, tabulate m L, map (\<lambda>l. int (length (np_where_eq (tabulate m L) l))) [0..<Suc n])"
    and "scan m (block_positions m) (0, \<lambda>p. 0) = (n, L)"
    and "labelled_ok m (n, L)"
    and "\<And>p. fgpix m p \<Longrightarrow> L p \<noteq> 0"
proof -
  obtain n L where s: "scan m (block_positions m) (0, \<lambda>p. 0) = (n, L)"
    by (cases "scan m (block_positions m) (0, \<lambda>p. 0)")
  have ok0: "labelled_ok m (0, \<lambda>p. 0)" by (simp add: labelled_ok_def)
  have ok: "labelled_ok m (n, L)" using scan_ok[OF ok0, of "block_positions m"] s by simp
  have cov: "\<And>p. fgpix m p \<Longrightarrow> L p \<noteq> 0"
  proof -
    fix p assume f: "fgpix m p"
    then have "p \<in> set (block_positions m)"
      by (simp add: block_positions_cover fgpix_def)
    from scan_covers[OF this f, of "(0, \<lambda>p. 0)"] s show "L p \<noteq> 0" by simp
  qed
  have "label_components m =
       (Suc n, tabulate m L, map (\<lambda>l. int (length (np_where_eq (tabulate m L) l))) [0..<Suc n])"
    by (simp add: label_components_def s Let_def del: upt_Suc)
  then show ?thesis using s ok cov that by blast
qed

lemma lc_shape:
  "label_components m = (n_labels, labels, stats) \<Longrightarrow> shape labels = shape m"
  by (rule lc_scan[of m]) auto

lemma lc_length_stats:
  "label_components m = (n_labels, labels, stats) \<Longrightarrow> length stats = n_labels"
  by (rule lc_scan[of m]) auto

lemma lc_n_labels:
  "label_components m = (n_labels, labels, stats) \<Longrightarrow> 1 \<le> n_labels"
  by (rule lc_scan[of m]) auto

lemma lc_area:
  "label_components m = (n_labels, labels, stats) \<Longrightarrow> l < n_labels \<Longrightarrow>
     stats ! l = int (length (np_where_eq labels l))"
proof (rule lc_scan[of m])
  fix n L
  assume a: "label_components m = (n_labels, labels, stats)" "l < n_labels"
    and b: "label_components m =
       (Suc n, tabulate m L, map (\<lambda>l. int (length (np_where_eq (tabulate m L) l))) [0..<Suc n])"
  from a b have l: "l < Suc n" and e: "labels = tabulate m L"
    "stats = map (\<lambda>l. int (length (np_where_eq (tabulate m L) l))) [0..<Suc n]" by auto
  show ?thesis unfolding e using l by (simp only: nth_map_upt diff_zero add_0)
qed

lemma lc_label_used:
  assumes c: "label_components m = (n_labels, labels, stats)"
    and l: "1 \<le> l" "l < n_labels"
  shows "np_where_eq labels l \<noteq> []"
proof (rule lc_scan[of m])
  fix n L
  assume b: "label_components m =
       (Suc n, tabulate m L, map (\<lambda>l. int (length (np_where_eq (tabulate m L) l))) [0..<Suc n])"
    and ok: "labelled_ok m (n, L)"
  from c b have e: "labels = tabulate m L" and n: "n_labels = Suc n" by auto
  have "\<exists>p. L p = l" using ok l n unfolding labelled_ok_def by (metis fst_conv snd_conv less_Suc_eq_le)
  then obtain p where p: "L p = l" ..
  then have "L p \<noteq> 0" using l by simp
  then have "fgpix m p" using ok unfolding labelled_ok_def by (metis snd_conv)
  then have "p \<in> set (positions m)" by (simp add: set_positions fgpix_def)
  then have "p \<in> set (filter (\<lambda>p. L p = l) (positions m))" using p by simp
  then show ?thesis unfolding e np_where_tabulate by (metis empty_iff empty_set)
qed

lemma lc_label_fg:
  assumes c: "label_components m = (n_labels, labels, stats)" and p: "inside m p"
  shows "(px labels p \<noteq> 0) = (px m p \<noteq> 0)" and "px labels p < n_labels"
proof -
  have "(px labels p \<noteq> 0) = (px m p \<noteq> 0) \<and> px labels p < n_labels"
  proof (rule lc_scan[of m])
    fix n L
    assume b: "label_components m =
         (Suc n, tabulate m L, map (\<lambda>l. int (length (np_where_eq (tabulate m L) l))) [0..<Suc n])"
      and ok: "labelled_ok m (n, L)" and cov: "\<And>p. fgpix m p \<Longrightarrow> L p \<noteq> 0"
    from c b have e: "labels = tabulate m L" and n: "n_labels = Suc n" by auto
    have x: "px labels p = L p" unfolding e using p by (rule px_tabulate)
    have "L p \<noteq> 0 \<Longrightarrow> fgpix m p" using ok unfolding labelled_ok_def by (metis snd_conv)
    moreover have "L p \<le> n" using ok unfolding labelled_ok_def by (metis fst_conv snd_conv)
    ultimately show ?thesis using cov[of p] p x n by (auto simp: fgpix_def)
  qed
  then show "(px labels p \<noteq> 0) = (px m p \<noteq> 0)" and "px labels p < n_labels" by simp_all
qed

lemma labelling_ok_label_components: "labelling_ok label_components"
  unfolding labelling_ok_def
proof
  fix m
  obtain n_labels labels stats where c: "label_components m = (n_labels, labels, stats)"
    by (cases "label_components m")
  have "1 \<le> n_labels" "shape labels = shape m" "length stats = n_labels"
    using lc_n_labels[OF c] lc_shape[OF c] lc_length_stats[OF c] by simp_all
  moreover have "\<forall>l. l < n_labels \<longrightarrow> stats ! l = int (length (np_where_eq labels l))"
    using lc_area[OF c] by blast
  moreover have "\<forall>l. 1 \<le> l \<and> l < n_labels \<longrightarrow> np_where_eq labels l \<noteq> []"
    using lc_label_used[OF c] by blast
  moreover have "\<forall>p. inside m p \<longrightarrow> (px labels p \<noteq> 0) = (px m p \<noteq> 0) \<and> px labels p < n_labels"
    using lc_label_fg[OF c] by blast
  ultimately show "case label_components m of (n_labels, labels, stats) \<Rightarrow>
        1 \<le> n_labels \<and> shape labels = shape m \<and> length stats = n_labels \<and>
        (\<forall>l. l < n_labels \<longrightarrow> stats ! l = int (length (np_where_eq labels l))) \<and>
        (\<forall>l. 1 \<le> l \<and> l < n_labels \<longrightarrow> np_where_eq labels l \<noteq> []) \<and>
        (\<forall>p. inside m p \<longrightarrow> (px labels p \<noteq> 0) = (px m p \<noteq> 0) \<and> px labels p < n_labels)"
    unfolding c prod.case by blast
qed

subsection \<open>The other operations\<close>

definition bgr2gray :: "bgr \<Rightarrow> 8 word" where
  "bgr2gray c =
     (case c of (b, g, r) \<Rightarrow>
        word_of_nat ((1868 * unat b + 9617 * unat g + 4899 * unat r + 8192) div 16384))"

definition cvtColor_BGR2GRAY :: "image \<Rightarrow> gray" where
  "cvtColor_BGR2GRAY img = map (map bgr2gray) img"

definition reflect101 :: "nat \<Rightarrow> int \<Rightarrow> nat" where
  "reflect101 n i =
     (if n \<le> 1 then 0
      else let m = 2 * (int n - 1); j = i mod m in nat (if j < int n then j else m - j))"

definition binomial5 :: "int \<Rightarrow> nat" where
  "binomial5 d = (if d = 0 then 6 else if \<bar>d\<bar> = 1 then 4 else 1)"

definition GaussianBlur_5x5 :: "gray \<Rightarrow> gray" where
  "GaussianBlur_5x5 src =
     tabulate src (\<lambda>p.
       word_of_nat
         ((sum_list (map (\<lambda>dy. binomial5 dy *
              sum_list (map (\<lambda>dx. binomial5 dx *
                 unat (src ! reflect101 (length src) (fst p + dy)
                           ! reflect101 (length (src ! nat (fst p))) (snd p + dx)))
                [-2, -1, 0, 1, 2]))
            [-2, -1, 0, 1, 2]) + 128) div 256))"

text \<open>
  The state of Otsu's loop over the values \<open>i\<close>: the number \<open>w1\<close> and the sum \<open>s1\<close> of
  the pixels up to \<open>i\<close>, the best variance so far as a fraction \<open>a / d\<close>, and the value
  \<open>t\<close> that gave it.
\<close>

definition otsu_step ::
  "nat list \<Rightarrow> nat \<Rightarrow> nat \<times> nat \<times> int \<times> int \<times> nat \<Rightarrow> nat \<times> nat \<times> int \<times> int \<times> nat" where
  "otsu_step pxs i s =
     (case s of (w1, s1, a, d, t) \<Rightarrow>
        let h = count_list pxs i; w1 = w1 + h; s1 = s1 + i * h;
            n = length pxs; total = sum_list pxs
        in if w1 = 0 \<or> w1 = n then (w1, s1, a, d, t)
           else let a' = (int s1 * int n - int total * int w1)\<^sup>2;
                    d' = int w1 * (int n - int w1)
                in if a * d' < a' * d then (w1, s1, a', d', i) else (w1, s1, a, d, t))"

definition otsu_exact :: "gray \<Rightarrow> 8 word" where
  "otsu_exact src =
     (case foldl (\<lambda>s i. otsu_step (map unat (concat src)) i s) (0, 0, 0, 1, 0) [0..<256] of
        (w1, s1, a, d, t) \<Rightarrow> word_of_nat t)"

definition clahe_unit_tiles :: "gray \<Rightarrow> gray" where
  "clahe_unit_tiles src =
     tabulate src (\<lambda>p.
       let v = px src p;
           k = length (filter (\<lambda>q. px src q \<le> v)
                 [(max (fst p - 1) 0, max (snd p - 1) 0), (max (fst p - 1) 0, snd p),
                  (fst p, max (snd p - 1) 0), (fst p, snd p)])
       in [64, 128, 191, 255] ! (k - 1))"

definition putText_mark :: "image \<Rightarrow> string \<Rightarrow> pos \<Rightarrow> image" where
  "putText_mark img text org =
     (if inside img (snd org, fst org)
      then img[nat (snd org) := (img ! nat (snd org))[nat (fst org) := (0, 0, 255)]]
      else img)"

definition cv_ref :: cv where
  "cv_ref = \<lparr>cvtColor = cvtColor_BGR2GRAY, GaussianBlur = GaussianBlur_5x5,
             otsu = otsu_exact, clahe = clahe_unit_tiles,
             connectedComponentsWithStats = label_components, putText = putText_mark\<rparr>"

lemma cv_ref_ok: "cv_ok cv_ref"
  by (simp add: cv_ok_def keeps_shape_def cv_ref_def GaussianBlur_5x5_def clahe_unit_tiles_def
      labelling_ok_label_components)

section \<open>The claims about the count\<close>

lemma count_particles_eq:
  assumes ok: "cv_ok ops"
    and p: "particle_mask ops (st ! image_ref) = Inr particles"
    and c: "connectedComponentsWithStats ops particles = (n_labels, labels, stats)"
  shows "count_particles ops st image_ref min_area =
       Inr (int (length (kept stats min_area [1..<n_labels])), length st,
            st @ [foldl (draw ops labels) (st ! image_ref)
                    (rank_from 0 (kept stats min_area [1..<n_labels]))])"
proof -
  have used: "\<forall>l\<in>set [1..<n_labels]. np_where_eq labels l \<noteq> []"
    using labelling_okD(5)[OF cv_ok_labelling[OF ok] c] by simp
  have "length st < length (st @ [st ! image_ref])" by simp
  from count_loop_run[OF used this, of ops stats min_area 0]
  show ?thesis by (simp add: count_particles_def p c)
qed

lemma length_kept_le: "length (kept stats min_area ls) \<le> length ls"
  by (simp add: kept_def)

lemma length_kept_mono:
  "a \<le> b \<Longrightarrow> length (kept stats b ls) \<le> length (kept stats a ls)"
proof (induction ls)
  case Nil
  then show ?case by (simp add: kept_def)
next
  case (Cons l ls)
  then show ?case by (auto simp: kept_def)
qed

lemma sorted_kept: "sorted_wrt (<) (kept stats min_area [i..<j])"
  unfolding kept_def by (rule sorted_wrt_filter) simp

text \<open>A sample image: 8 by 8 pixels, white, with one black pixel.\<close>

definition white_with_dot :: image where
  "white_with_dot =
     (replicate 8 (replicate 8 (255, 255, 255)))[3 := (replicate 8 (255, 255, 255))[3 := (0, 0, 0)]]"

text \<open>
  C2. For a fixed image and thresholds \<open>a \<le> b\<close>, \<^verbatim>\<open>count_particles\<close> returns for both,
  and the count for \<open>b\<close> is at most the count for \<open>a\<close>.
\<close>

theorem count_antitone_in_min_area:
  assumes "cv_ok ops" and "a \<le> b"
  shows "\<exists>ca cb ova ovb sta stb.
           count_particles ops st image_ref a = Inr (ca, ova, sta) \<and>
           count_particles ops st image_ref b = Inr (cb, ovb, stb) \<and> cb \<le> ca"
proof -
  obtain particles where p: "particle_mask ops (st ! image_ref) = Inr particles"
    using particle_mask_returns[OF assms(1)] by blast
  obtain n_labels labels stats where
    c: "connectedComponentsWithStats ops particles = (n_labels, labels, stats)"
    by (cases "connectedComponentsWithStats ops particles")
  show ?thesis
    using count_particles_eq[OF assms(1) p c, of a] count_particles_eq[OF assms(1) p c, of b]
      length_kept_mono[OF assms(2), of stats "[1..<n_labels]"]
    by simp
qed

theorem count_antitone_in_min_area_witness:
  "cv_ok cv_ref \<and> (5::int) \<le> 350 \<and>
   (\<exists>ca cb ova ovb sta stb.
      count_particles cv_ref [white_with_dot] 0 5 = Inr (ca, ova, sta) \<and>
      count_particles cv_ref [white_with_dot] 0 350 = Inr (cb, ovb, stb) \<and> cb \<le> ca)"
  using count_antitone_in_min_area[OF cv_ref_ok, of 5 350 "[white_with_dot]" 0] cv_ref_ok
  by simp

text \<open>
  C7. The count that \<^verbatim>\<open>count_particles\<close> returns is not negative and is at most the
  number of components of the particle mask: the number of labels that
  \<^verbatim>\<open>connectedComponentsWithStats\<close> returns for it, less the background label.
\<close>

theorem count_bounded_by_components:
  assumes "cv_ok ops"
  shows "\<exists>particles n_labels labels stats count overlay st'.
           particle_mask ops (st ! image_ref) = Inr particles \<and>
           connectedComponentsWithStats ops particles = (n_labels, labels, stats) \<and>
           count_particles ops st image_ref min_area = Inr (count, overlay, st') \<and>
           0 \<le> count \<and> count \<le> int n_labels - 1"
proof -
  obtain particles where p: "particle_mask ops (st ! image_ref) = Inr particles"
    using particle_mask_returns[OF assms(1)] by blast
  obtain n_labels labels stats where
    c: "connectedComponentsWithStats ops particles = (n_labels, labels, stats)"
    by (cases "connectedComponentsWithStats ops particles")
  have "1 \<le> n_labels" using cv_ok_labelling[OF assms(1)] c by (rule labelling_okD(1))
  then have "int (length (kept stats min_area [1..<n_labels])) \<le> int n_labels - 1"
    using length_kept_le[of stats min_area "[1..<n_labels]"] by simp
  then show ?thesis
    using count_particles_eq[OF assms(1) p c, of min_area] p c by simp
qed

theorem count_bounded_by_components_witness:
  "cv_ok cv_ref \<and>
   (\<exists>particles n_labels labels stats count overlay st'.
      particle_mask cv_ref ([white_with_dot] ! 0) = Inr particles \<and>
      connectedComponentsWithStats cv_ref particles = (n_labels, labels, stats) \<and>
      count_particles cv_ref [white_with_dot] 0 5 = Inr (count, overlay, st') \<and>
      0 \<le> count \<and> count \<le> int n_labels - 1)"
  using count_bounded_by_components[OF cv_ref_ok, of "[white_with_dot]" 0 5] cv_ref_ok
  by blast

lemma set_kept: "set (kept stats min_area ls) = {l \<in> set ls. \<not> stats ! l < min_area}"
  by (simp add: kept_def)

lemma set_np_where_eq:
  "set (np_where_eq labels l) = {p. inside labels p \<and> px labels p = l}"
  by (auto simp: np_where_eq_def set_positions)

text \<open>
  A second sample image: 8 by 8 pixels, white, with three black pixels. Its particle mask
  has three components, of 16, 6 and 13 pixels.
\<close>

definition white_with_three_dots :: image where
  "white_with_three_dots =
     (replicate 8 (replicate 8 (255, 255, 255)))
       [0 := (replicate 8 (255, 255, 255))[2 := (0, 0, 0)],
        3 := (replicate 8 (255, 255, 255))[6 := (0, 0, 0)],
        6 := (replicate 8 (255, 255, 255))[2 := (0, 0, 0)]]"

text \<open>
  C4. In \<^verbatim>\<open>count_particles\<close> the labels are taken in ascending order from 1; a label is
  dropped exactly when its area is below \<open>min_area\<close>, so a label whose area equals
  \<open>min_area\<close> is kept; the kept labels get the ranks 1, 2, ... in that order, the count is
  their number, and the text of a rank is drawn from the centroid of its label, which is
  the truncated mean row and mean column of the pixels that carry the label, whose
  number is the area.
\<close>

theorem area_filter_ranks_centroids:
  assumes "cv_ok ops"
  shows "\<exists>particles n_labels labels stats.
           particle_mask ops (st ! image_ref) = Inr particles \<and>
           connectedComponentsWithStats ops particles = (n_labels, labels, stats) \<and>
           count_particles ops st image_ref min_area =
             Inr (int (length (kept stats min_area [1..<n_labels])), length st,
                  st @ [foldl (draw ops labels) (st ! image_ref)
                          (rank_from 0 (kept stats min_area [1..<n_labels]))]) \<and>
           (\<forall>l. 1 \<le> l \<and> l < n_labels \<longrightarrow>
                (l \<notin> set (kept stats min_area [1..<n_labels])) = (stats ! l < min_area)) \<and>
           (\<forall>l. 1 \<le> l \<and> l < n_labels \<and> stats ! l = min_area \<longrightarrow>
                l \<in> set (kept stats min_area [1..<n_labels])) \<and>
           set (kept stats min_area [1..<n_labels]) \<subseteq> {1..<n_labels} \<and>
           sorted_wrt (<) (kept stats min_area [1..<n_labels]) \<and>
           (\<forall>i. i < length (kept stats min_area [1..<n_labels]) \<longrightarrow>
                rank_from 0 (kept stats min_area [1..<n_labels]) ! i
                  = (int i + 1, kept stats min_area [1..<n_labels] ! i)) \<and>
           (\<forall>l. 1 \<le> l \<and> l < n_labels \<longrightarrow>
                set (np_where_eq labels l) = {p. inside labels p \<and> px labels p = l} \<and>
                stats ! l = int (length (np_where_eq labels l)) \<and> 0 < stats ! l \<and>
                centroid labels l =
                  (sum_list (map fst (np_where_eq labels l)) div stats ! l,
                   sum_list (map snd (np_where_eq labels l)) div stats ! l))"
proof -
  obtain particles where p: "particle_mask ops (st ! image_ref) = Inr particles"
    using particle_mask_returns[OF assms(1)] by blast
  obtain n_labels labels stats where
    c: "connectedComponentsWithStats ops particles = (n_labels, labels, stats)"
    by (cases "connectedComponentsWithStats ops particles")
  let ?K = "kept stats min_area [1..<n_labels]"
  have run: "count_particles ops st image_ref min_area =
             Inr (int (length ?K), length st,
                  st @ [foldl (draw ops labels) (st ! image_ref) (rank_from 0 ?K)])"
    by (rule count_particles_eq[OF assms(1) p c])
  have drop: "\<forall>l. 1 \<le> l \<and> l < n_labels \<longrightarrow> (l \<notin> set ?K) = (stats ! l < min_area)"
    by (simp add: set_kept)
  have keep: "\<forall>l. 1 \<le> l \<and> l < n_labels \<and> stats ! l = min_area \<longrightarrow> l \<in> set ?K"
    by (simp add: set_kept)
  have sub: "set ?K \<subseteq> {1..<n_labels}"
    by (auto simp: set_kept)
  have asc: "sorted_wrt (<) ?K" by (rule sorted_kept)
  have ranks: "\<forall>i. i < length ?K \<longrightarrow> rank_from 0 ?K ! i = (int i + 1, ?K ! i)"
    by (simp add: rank_from_nth)
  have cen: "\<forall>l. 1 \<le> l \<and> l < n_labels \<longrightarrow>
                set (np_where_eq labels l) = {p. inside labels p \<and> px labels p = l} \<and>
                stats ! l = int (length (np_where_eq labels l)) \<and> 0 < stats ! l \<and>
                centroid labels l =
                  (sum_list (map fst (np_where_eq labels l)) div stats ! l,
                   sum_list (map snd (np_where_eq labels l)) div stats ! l)"
  proof (intro allI impI)
    fix l assume l: "1 \<le> l \<and> l < n_labels"
    have a: "stats ! l = int (length (np_where_eq labels l))"
      using labelling_okD(4)[OF cv_ok_labelling[OF assms(1)] c] l by simp
    have "np_where_eq labels l \<noteq> []"
      using labelling_okD(5)[OF cv_ok_labelling[OF assms(1)] c] l by simp
    then have b: "0 < stats ! l" using a by simp
    show "set (np_where_eq labels l) = {p. inside labels p \<and> px labels p = l} \<and>
                stats ! l = int (length (np_where_eq labels l)) \<and> 0 < stats ! l \<and>
                centroid labels l =
                  (sum_list (map fst (np_where_eq labels l)) div stats ! l,
                   sum_list (map snd (np_where_eq labels l)) div stats ! l)"
      using a b by (simp add: set_np_where_eq centroid_def Let_def)
  qed
  from p c run drop keep sub asc ranks cen show ?thesis by blast
qed

theorem area_filter_ranks_centroids_witness:
  "cv_ok cv_ref \<and>
   (\<exists>particles n_labels labels stats.
           particle_mask cv_ref ([white_with_three_dots] ! 0) = Inr particles \<and>
           connectedComponentsWithStats cv_ref particles = (n_labels, labels, stats) \<and>
           count_particles cv_ref [white_with_three_dots] 0 13 =
             Inr (int (length (kept stats 13 [1..<n_labels])), length [white_with_three_dots],
                  [white_with_three_dots] @ [foldl (draw cv_ref labels) ([white_with_three_dots] ! 0)
                          (rank_from 0 (kept stats 13 [1..<n_labels]))]) \<and>
           (\<forall>l. 1 \<le> l \<and> l < n_labels \<longrightarrow>
                (l \<notin> set (kept stats 13 [1..<n_labels])) = (stats ! l < 13)) \<and>
           (\<forall>l. 1 \<le> l \<and> l < n_labels \<and> stats ! l = 13 \<longrightarrow>
                l \<in> set (kept stats 13 [1..<n_labels])) \<and>
           set (kept stats 13 [1..<n_labels]) \<subseteq> {1..<n_labels} \<and>
           sorted_wrt (<) (kept stats 13 [1..<n_labels]) \<and>
           (\<forall>i. i < length (kept stats 13 [1..<n_labels]) \<longrightarrow>
                rank_from 0 (kept stats 13 [1..<n_labels]) ! i
                  = (int i + 1, kept stats 13 [1..<n_labels] ! i)) \<and>
           (\<forall>l. 1 \<le> l \<and> l < n_labels \<longrightarrow>
                set (np_where_eq labels l) = {p. inside labels p \<and> px labels p = l} \<and>
                stats ! l = int (length (np_where_eq labels l)) \<and> 0 < stats ! l \<and>
                centroid labels l =
                  (sum_list (map fst (np_where_eq labels l)) div stats ! l,
                   sum_list (map snd (np_where_eq labels l)) div stats ! l)))"
proof (rule conjI)
  show "cv_ok cv_ref" by (rule cv_ref_ok)
  show "\<exists>particles n_labels labels stats.
           particle_mask cv_ref ([white_with_three_dots] ! 0) = Inr particles \<and>
           connectedComponentsWithStats cv_ref particles = (n_labels, labels, stats) \<and>
           count_particles cv_ref [white_with_three_dots] 0 13 =
             Inr (int (length (kept stats 13 [1..<n_labels])), length [white_with_three_dots],
                  [white_with_three_dots] @ [foldl (draw cv_ref labels) ([white_with_three_dots] ! 0)
                          (rank_from 0 (kept stats 13 [1..<n_labels]))]) \<and>
           (\<forall>l. 1 \<le> l \<and> l < n_labels \<longrightarrow>
                (l \<notin> set (kept stats 13 [1..<n_labels])) = (stats ! l < 13)) \<and>
           (\<forall>l. 1 \<le> l \<and> l < n_labels \<and> stats ! l = 13 \<longrightarrow>
                l \<in> set (kept stats 13 [1..<n_labels])) \<and>
           set (kept stats 13 [1..<n_labels]) \<subseteq> {1..<n_labels} \<and>
           sorted_wrt (<) (kept stats 13 [1..<n_labels]) \<and>
           (\<forall>i. i < length (kept stats 13 [1..<n_labels]) \<longrightarrow>
                rank_from 0 (kept stats 13 [1..<n_labels]) ! i
                  = (int i + 1, kept stats 13 [1..<n_labels] ! i)) \<and>
           (\<forall>l. 1 \<le> l \<and> l < n_labels \<longrightarrow>
                set (np_where_eq labels l) = {p. inside labels p \<and> px labels p = l} \<and>
                stats ! l = int (length (np_where_eq labels l)) \<and> 0 < stats ! l \<and>
                centroid labels l =
                  (sum_list (map fst (np_where_eq labels l)) div stats ! l,
                   sum_list (map snd (np_where_eq labels l)) div stats ! l))"
    by (rule area_filter_ranks_centroids[OF cv_ref_ok])
qed

text \<open>
  C9. \<^verbatim>\<open>count_particles\<close> leaves the array of the input image as it was: the store it
  returns holds every array of the store it was given, unchanged, and the overlay is a
  new cell, not the cell of the image.
\<close>

theorem input_image_not_mutated:
  assumes "cv_ok ops" and "image_ref < length st"
  shows "\<exists>count overlay st'.
           count_particles ops st image_ref min_area = Inr (count, overlay, st') \<and>
           st' ! image_ref = st ! image_ref \<and> take (length st) st' = st \<and>
           overlay = length st \<and> overlay \<noteq> image_ref"
proof -
  obtain particles where p: "particle_mask ops (st ! image_ref) = Inr particles"
    using particle_mask_returns[OF assms(1)] by blast
  obtain n_labels labels stats where
    c: "connectedComponentsWithStats ops particles = (n_labels, labels, stats)"
    by (cases "connectedComponentsWithStats ops particles")
  show ?thesis
    using count_particles_eq[OF assms(1) p c, of min_area] assms(2) by (simp add: nth_append)
qed

theorem input_image_not_mutated_witness:
  "cv_ok cv_ref \<and> (0::nat) < length [white_with_dot] \<and>
   (\<exists>count overlay st'.
      count_particles cv_ref [white_with_dot] 0 5 = Inr (count, overlay, st') \<and>
      st' ! 0 = [white_with_dot] ! 0 \<and> take (length [white_with_dot]) st' = [white_with_dot] \<and>
      overlay = length [white_with_dot] \<and> overlay \<noteq> 0)"
  using input_image_not_mutated[OF cv_ref_ok, of 0 "[white_with_dot]" 5] cv_ref_ok
  by simp

lemma length_positions: "length (positions m) = sum_list (shape m)"
proof -
  have "map (\<lambda>y. length (m ! y)) [0..<length m] = map length m"
    by (rule nth_equalityI) simp_all
  then show ?thesis
    by (simp add: positions_def length_concat comp_def shape_def)
qed

lemma length_np_where_eq_le: "length (np_where_eq labels l) \<le> sum_list (shape labels)"
  unfolding np_where_eq_def using length_filter_le[of _ "positions labels"]
  by (simp add: length_positions)

text \<open>With a threshold above the number of pixels of the image, no label is kept.\<close>

lemma count_zero_above_size:
  assumes ok: "cv_ok ops"
    and big: "int (sum_list (shape (cvtColor ops (st ! image_ref)))) < min_area"
    and run: "count_particles ops st image_ref min_area = Inr (count, overlay, st')"
  shows "count = 0"
proof -
  obtain particles where p: "particle_mask ops (st ! image_ref) = Inr particles"
    and sp: "shape particles = shape (cvtColor ops (st ! image_ref))"
    using particle_mask_returns[OF ok] by blast
  obtain n_labels labels stats where
    c: "connectedComponentsWithStats ops particles = (n_labels, labels, stats)"
    by (cases "connectedComponentsWithStats ops particles")
  note lab = cv_ok_labelling[OF ok]
  have sl: "shape labels = shape particles" using lab c by (rule labelling_okD(2))
  have "\<forall>l\<in>set [1..<n_labels]. stats ! l < min_area"
  proof
    fix l assume "l \<in> set [1..<n_labels]"
    then have "l < n_labels" by simp
    then have "stats ! l = int (length (np_where_eq labels l))"
      using labelling_okD(4)[OF lab c] by simp
    also have "\<dots> \<le> int (sum_list (shape labels))"
      using length_np_where_eq_le[of labels l] by simp
    finally show "stats ! l < min_area" using big sl sp by simp
  qed
  then have "kept stats min_area [1..<n_labels] = []"
    unfolding kept_def by (simp only: filter_empty_conv) blast
  with count_particles_eq[OF ok p c, of min_area] run show ?thesis by simp
qed

lemma shape_cvtColor_ref: "shape (cvtColor cv_ref img) = shape img"
  by (simp add: cv_ref_def cvtColor_BGR2GRAY_def)

lemma shape_white_with_dot: "shape white_with_dot = replicate 8 8"
  by (simp add: white_with_dot_def shape_def map_update list_eq_iff_nth_eq nth_list_update)

lemma size_white_with_dot: "sum_list (shape (cvtColor cv_ref white_with_dot)) = 64"
  by (simp add: shape_cvtColor_ref shape_white_with_dot sum_list_replicate)

text \<open>
  C10. \<^verbatim>\<open>count_particles\<close> makes the overlay on every run, as a new array; when the
  count is 0 the overlay it returns is equal to the input image.
\<close>

theorem overlay_is_copy_when_count_zero:
  assumes "cv_ok ops"
  shows "\<exists>count overlay st'.
           count_particles ops st image_ref min_area = Inr (count, overlay, st') \<and>
           overlay = length st \<and> length st' = Suc (length st) \<and>
           (count = 0 \<longrightarrow> st' ! overlay = st ! image_ref)"
proof -
  obtain particles where p: "particle_mask ops (st ! image_ref) = Inr particles"
    using particle_mask_returns[OF assms(1)] by blast
  obtain n_labels labels stats where
    c: "connectedComponentsWithStats ops particles = (n_labels, labels, stats)"
    by (cases "connectedComponentsWithStats ops particles")
  show ?thesis
    using count_particles_eq[OF assms(1) p c, of min_area] by simp
qed

theorem overlay_is_copy_when_count_zero_witness:
  "cv_ok cv_ref \<and>
   (\<exists>overlay st'.
      count_particles cv_ref [white_with_dot] 0 350 = Inr (0, overlay, st') \<and>
      overlay = length [white_with_dot] \<and> length st' = Suc (length [white_with_dot]) \<and>
      st' ! overlay = [white_with_dot] ! 0)"
proof -
  obtain count overlay st' where
    run: "count_particles cv_ref [white_with_dot] 0 350 = Inr (count, overlay, st')"
    and rest: "overlay = length [white_with_dot]" "length st' = Suc (length [white_with_dot])"
      "count = 0 \<longrightarrow> st' ! overlay = [white_with_dot] ! 0"
    using overlay_is_copy_when_count_zero[OF cv_ref_ok, of "[white_with_dot]" 0 350] by blast
  have "int (sum_list (shape (cvtColor cv_ref ([white_with_dot] ! 0)))) < 350"
    by (simp add: size_white_with_dot)
  then have "count = 0" using run by (rule count_zero_above_size[OF cv_ref_ok])
  with run rest cv_ref_ok show ?thesis by simp
qed

section \<open>Foreground pixels through the morphology\<close>

lemma foldr_max_zero: "(foldr max vs (0::8 word) = 0) = (\<forall>v\<in>set vs. v = 0)"
proof (induction vs)
  case Nil
  then show ?case by simp
next
  case (Cons v vs)
  have "(max v (foldr max vs 0) = 0) = (v = 0 \<and> foldr max vs 0 = 0)"
    by (auto simp: max_def word_le_0_iff)
  with Cons show ?case by simp
qed

lemma foldr_min_zero: "(foldr min vs (255::8 word) = 0) = (\<exists>v\<in>set vs. v = 0)"
proof (induction vs)
  case Nil
  then show ?case by simp
next
  case (Cons v vs)
  have "(min v (foldr min vs 255) = 0) = (v = 0 \<or> foldr min vs 255 = 0)"
    by (auto simp: min_def word_le_0_iff)
  with Cons show ?case by simp
qed

lemma under_ex:
  "(\<exists>v\<in>set (under k a p). P v) =
     (\<exists>d\<in>set k. inside a (fst p + fst d, snd p + snd d)
                  \<and> P (px a (fst p + fst d, snd p + snd d)))"
  unfolding under_def set_map set_filter by blast

lemma under_all:
  "(\<forall>v\<in>set (under k a p). P v) =
     (\<forall>d\<in>set k. inside a (fst p + fst d, snd p + snd d)
                  \<longrightarrow> P (px a (fst p + fst d, snd p + snd d)))"
  unfolding under_def set_map set_filter by blast

lemma inside_dilate1 [simp]: "inside (dilate1 k a) p = inside a p"
  by (rule inside_shape) simp

lemma inside_erode1 [simp]: "inside (erode1 k a) p = inside a p"
  by (rule inside_shape) simp

lemma fgpix_dilate1:
  "fgpix (dilate1 k a) p =
     (inside a p \<and> (\<exists>d\<in>set k. fgpix a (fst p + fst d, snd p + snd d)))"
proof (cases "inside a p")
  case True
  then have "px (dilate1 k a) p = foldr max (under k a p) 0"
    by (simp add: dilate1_def px_tabulate)
  then have "(px (dilate1 k a) p \<noteq> 0) = (\<exists>v\<in>set (under k a p). v \<noteq> 0)"
    by (simp add: foldr_max_zero)
  also have "\<dots> = (\<exists>d\<in>set k. fgpix a (fst p + fst d, snd p + snd d))"
    unfolding under_ex fgpix_def by blast
  finally show ?thesis using True by (simp add: fgpix_def)
next
  case False
  then show ?thesis by (simp add: fgpix_def)
qed

lemma fgpix_erode1:
  "fgpix (erode1 k a) p =
     (inside a p \<and> (\<forall>d\<in>set k. inside a (fst p + fst d, snd p + snd d)
                        \<longrightarrow> fgpix a (fst p + fst d, snd p + snd d)))"
proof (cases "inside a p")
  case True
  then have "px (erode1 k a) p = foldr min (under k a p) 255"
    by (simp add: erode1_def px_tabulate)
  then have "(px (erode1 k a) p \<noteq> 0) = (\<forall>v\<in>set (under k a p). v \<noteq> 0)"
    by (simp only: foldr_min_zero) blast
  also have "\<dots> = (\<forall>d\<in>set k. inside a (fst p + fst d, snd p + snd d)
                        \<longrightarrow> fgpix a (fst p + fst d, snd p + snd d))"
    unfolding under_all fgpix_def by blast
  finally show ?thesis using True by (simp add: fgpix_def)
next
  case False
  then show ?thesis by (simp add: fgpix_def)
qed

text \<open>One mask lies in another: same size, and every foreground pixel is one of the other.\<close>

definition mask_le :: "gray \<Rightarrow> gray \<Rightarrow> bool" where
  "mask_le a b = (shape a = shape b \<and> (\<forall>p. fgpix a p \<longrightarrow> fgpix b p))"

lemma mask_leI: "shape a = shape b \<Longrightarrow> (\<And>p. fgpix a p \<Longrightarrow> fgpix b p) \<Longrightarrow> mask_le a b"
  unfolding mask_le_def by blast

lemma mask_leD: "mask_le a b \<Longrightarrow> fgpix a p \<Longrightarrow> fgpix b p"
  unfolding mask_le_def by blast

lemma mask_le_shape: "mask_le a b \<Longrightarrow> shape a = shape b"
  unfolding mask_le_def by blast

lemma mask_le_refl [simp]: "mask_le a a"
  by (rule mask_leI) simp_all

lemma mask_le_trans: "mask_le a b \<Longrightarrow> mask_le b c \<Longrightarrow> mask_le a c"
  unfolding mask_le_def by (metis)

lemma mask_le_inside: "mask_le a b \<Longrightarrow> inside a p = inside b p"
  by (rule inside_shape) (rule mask_le_shape)

lemma dilate1_mono:
  assumes "mask_le a b"
  shows "mask_le (dilate1 k a) (dilate1 k b)"
proof (rule mask_leI)
  show "shape (dilate1 k a) = shape (dilate1 k b)"
    using mask_le_shape[OF assms] by simp
next
  fix p assume "fgpix (dilate1 k a) p"
  then obtain d where "inside a p" "d \<in> set k" "fgpix a (fst p + fst d, snd p + snd d)"
    unfolding fgpix_dilate1 by blast
  then show "fgpix (dilate1 k b) p"
    unfolding fgpix_dilate1 using mask_leD[OF assms] mask_le_inside[OF assms] by blast
qed

lemma erode1_mono:
  assumes "mask_le a b"
  shows "mask_le (erode1 k a) (erode1 k b)"
proof (rule mask_leI)
  show "shape (erode1 k a) = shape (erode1 k b)"
    using mask_le_shape[OF assms] by simp
next
  fix p assume "fgpix (erode1 k a) p"
  then have "inside a p"
    and "\<forall>d\<in>set k. inside a (fst p + fst d, snd p + snd d)
                        \<longrightarrow> fgpix a (fst p + fst d, snd p + snd d)"
    unfolding fgpix_erode1 by blast+
  then show "fgpix (erode1 k b) p"
    unfolding fgpix_erode1 using mask_leD[OF assms] mask_le_inside[OF assms] by blast
qed

lemma dilate_mono: "mask_le a b \<Longrightarrow> mask_le (dilate k n a) (dilate k n b)"
  unfolding dilate_def by (induction n) (simp_all add: dilate1_mono)

lemma erode_mono: "mask_le a b \<Longrightarrow> mask_le (erode k n a) (erode k n b)"
  unfolding erode_def by (induction n) (simp_all add: erode1_mono)

text \<open>A structuring element that holds its centre, and one that is symmetric about it.\<close>

definition centred :: "pos list \<Rightarrow> bool" where
  "centred k = ((0, 0) \<in> set k)"

definition symmetric :: "pos list \<Rightarrow> bool" where
  "symmetric k = (\<forall>d\<in>set k. (- fst d, - snd d) \<in> set k)"

lemma dilate1_extensive:
  assumes "centred k"
  shows "mask_le a (dilate1 k a)"
proof (rule mask_leI)
  show "shape a = shape (dilate1 k a)" by simp
next
  fix p assume f: "fgpix a p"
  have "(0, 0) \<in> set k" using assms by (simp add: centred_def)
  moreover have "fgpix a (fst p + fst (0::int, 0::int), snd p + snd (0::int, 0::int))"
    using f by simp
  ultimately show "fgpix (dilate1 k a) p"
    unfolding fgpix_dilate1 using f by (metis fgpix_def)
qed

lemma erode1_antiextensive:
  assumes "centred k"
  shows "mask_le (erode1 k a) a"
proof (rule mask_leI)
  show "shape (erode1 k a) = shape a" by simp
next
  fix p assume f: "fgpix (erode1 k a) p"
  have z: "(0, 0) \<in> set k" using assms by (simp add: centred_def)
  from f have i: "inside a p"
    and all: "\<forall>d\<in>set k. inside a (fst p + fst d, snd p + snd d)
                        \<longrightarrow> fgpix a (fst p + fst d, snd p + snd d)"
    unfolding fgpix_erode1 by blast+
  from all z have "inside a (fst p + fst (0::int, 0::int), snd p + snd (0::int, 0::int))
      \<longrightarrow> fgpix a (fst p + fst (0::int, 0::int), snd p + snd (0::int, 0::int))"
    by (rule bspec)
  then show "fgpix a p" using i by simp
qed

lemma dilate_extensive: "centred k \<Longrightarrow> mask_le a (dilate k n a)"
  unfolding dilate_def
proof (induction n)
  case 0
  then show ?case by simp
next
  case (Suc n)
  have "mask_le ((dilate1 k ^^ n) a) (dilate1 k ((dilate1 k ^^ n) a))"
    using Suc.prems by (rule dilate1_extensive)
  with Suc.IH[OF Suc.prems] show ?case by (simp, metis mask_le_trans)
qed

lemma erode_antiextensive: "centred k \<Longrightarrow> mask_le (erode k n a) a"
  unfolding erode_def
proof (induction n)
  case 0
  then show ?case by simp
next
  case (Suc n)
  have "mask_le (erode1 k ((erode1 k ^^ n) a)) ((erode1 k ^^ n) a)"
    using Suc.prems by (rule erode1_antiextensive)
  with Suc.IH[OF Suc.prems] show ?case by (simp, metis mask_le_trans)
qed

lemma close1_extensive:
  assumes s: "symmetric k"
  shows "mask_le a (erode1 k (dilate1 k a))"
proof (rule mask_leI)
  show "shape a = shape (erode1 k (dilate1 k a))" by simp
next
  fix p assume f: "fgpix a p"
  have all: "\<forall>d\<in>set k. inside (dilate1 k a) (fst p + fst d, snd p + snd d)
          \<longrightarrow> fgpix (dilate1 k a) (fst p + fst d, snd p + snd d)"
  proof (intro ballI impI)
    fix d assume d: "d \<in> set k"
      and i: "inside (dilate1 k a) (fst p + fst d, snd p + snd d)"
    let ?q = "(fst p + fst d, snd p + snd d)"
    let ?e = "(- fst d, - snd d)"
    from s d have e: "?e \<in> set k" by (simp add: symmetric_def)
    have "(fst ?q + fst ?e, snd ?q + snd ?e) = p" by simp
    then have "fgpix a (fst ?q + fst ?e, snd ?q + snd ?e)" using f by simp
    with e have "\<exists>e\<in>set k. fgpix a (fst ?q + fst e, snd ?q + snd e)" by (rule bexI[rotated])
    moreover have "inside a ?q" using i by simp
    ultimately show "fgpix (dilate1 k a) ?q"
      by (simp only: fgpix_dilate1 simp_thms)
  qed
  have i: "inside (dilate1 k a) p" using f by (simp add: fgpix_def)
  show "fgpix (erode1 k (dilate1 k a)) p"
    by (rule iffD2[OF fgpix_erode1], rule conjI[OF i all])
qed

lemma morph_close_extensive: "symmetric k \<Longrightarrow> mask_le a (morph_close k n a)"
  unfolding morph_close_def erode_def dilate_def
proof (induction n)
  case 0
  then show ?case by simp
next
  case (Suc n)
  let ?d = "(dilate1 k ^^ n) a"
  have c: "mask_le ?d (erode1 k (dilate1 k ?d))"
    using Suc.prems by (rule close1_extensive)
  have m: "mask_le ((erode1 k ^^ n) ?d) ((erode1 k ^^ n) (erode1 k (dilate1 k ?d)))"
    using erode_mono[OF c, of k n] unfolding erode_def .
  have e: "(erode1 k ^^ Suc n) (dilate1 k ?d) = (erode1 k ^^ n) (erode1 k (dilate1 k ?d))"
    by (simp only: funpow_Suc_right comp_apply)
  have d: "(dilate1 k ^^ Suc n) a = dilate1 k ?d" by simp
  have "mask_le a ((erode1 k ^^ n) ?d)" using Suc.prems by (rule Suc.IH)
  then have "mask_le a ((erode1 k ^^ n) (erode1 k (dilate1 k ?d)))"
    using m by (rule mask_le_trans)
  then show ?case unfolding d e .
qed

section \<open>The degenerate case: no foreground after the threshold\<close>

definition blank :: "gray \<Rightarrow> bool" where
  "blank m = (\<forall>p. \<not> fgpix m p)"

lemma blankI: "(\<And>p. fgpix m p \<Longrightarrow> False) \<Longrightarrow> blank m"
  unfolding blank_def by blast

lemma blankD: "blank m \<Longrightarrow> fgpix m p \<Longrightarrow> False"
  unfolding blank_def by blast

lemma blank_mask_le:
  assumes "mask_le a b" and "blank b"
  shows "blank a"
proof (rule blankI)
  fix p assume "fgpix a p"
  with assms(1) have "fgpix b p" by (rule mask_leD)
  with assms(2) show False by (rule blankD)
qed

lemma blank_dilate1:
  assumes "blank a"
  shows "blank (dilate1 k a)"
proof (rule blankI)
  fix p assume "fgpix (dilate1 k a) p"
  then obtain d where "fgpix a (fst p + fst d, snd p + snd d)"
    unfolding fgpix_dilate1 by blast
  with assms show False by (rule blankD)
qed

lemma blank_dilate: "blank a \<Longrightarrow> blank (dilate k n a)"
  unfolding dilate_def by (induction n) (simp_all add: blank_dilate1)

lemma blank_erode: "centred k \<Longrightarrow> blank a \<Longrightarrow> blank (erode k n a)"
  by (rule blank_mask_le[OF erode_antiextensive])

lemma word8_and_nonzero: "(x::8 word) AND y \<noteq> 0 \<Longrightarrow> x \<noteq> 0 \<and> y \<noteq> 0"
  by auto

lemma bitwise_and_mask_le:
  assumes "bitwise_and a b = Inr c"
  shows "mask_le c a" and "mask_le c b"
proof -
  from assms have s: "shape a = shape b" and c: "c = tabulate a (\<lambda>p. px a p AND px b p)"
    by (auto simp: bitwise_and_def split: if_splits)
  have sc: "shape c = shape a" unfolding c by simp
  have i: "\<And>p. inside c p = inside a p" by (rule inside_shape) (rule sc)
  have ib: "\<And>p. inside a p = inside b p" by (rule inside_shape) (rule s)
  have v: "\<And>p. fgpix c p \<Longrightarrow> px a p \<noteq> 0 \<and> px b p \<noteq> 0"
  proof -
    fix p assume f: "fgpix c p"
    then have ia: "inside a p" using i by (simp add: fgpix_def)
    then have "px c p = px a p AND px b p" unfolding c by (rule px_tabulate)
    moreover have "px c p \<noteq> 0" using f by (simp add: fgpix_def)
    ultimately have "px a p AND px b p \<noteq> 0" by simp
    then show "px a p \<noteq> 0 \<and> px b p \<noteq> 0" by (rule word8_and_nonzero)
  qed
  show "mask_le c a"
  proof (rule mask_leI[OF sc])
    fix p assume f: "fgpix c p"
    then have "inside a p" using i by (simp add: fgpix_def)
    with v[OF f] show "fgpix a p" by (simp add: fgpix_def)
  qed
  show "mask_le c b"
  proof (rule mask_leI)
    show "shape c = shape b" using sc s by simp
    fix p assume f: "fgpix c p"
    then have "inside b p" using i ib by (simp add: fgpix_def)
    with v[OF f] show "fgpix b p" by (simp add: fgpix_def)
  qed
qed

lemma centred_ellipse3: "centred (ellipse 3)"
  unfolding centred_def by code_simp

lemma symmetric_ellipse3: "symmetric (ellipse 3)"
  unfolding symmetric_def by code_simp

lemma particle_mask_blank:
  assumes "particle_mask ops img = Inr particles" and "blank (specimen_mask ops img)"
  shows "blank particles"
proof -
  from assms(1) obtain cracks a where
    a: "bitwise_and (specimen_mask ops img) (bitwise_not cracks) = Inr a"
    and p: "particles = morph_open (ellipse 3) 1 a"
    unfolding particle_mask_def Let_def by (auto split: sum.splits)
  have "blank a" using bitwise_and_mask_le(1)[OF a] assms(2) by (rule blank_mask_le)
  with centred_ellipse3 have "blank (erode (ellipse 3) 1 a)" by (rule blank_erode)
  then show ?thesis unfolding p morph_open_def by (rule blank_dilate)
qed

lemma labelling_blank:
  assumes ok: "labelling_ok f" and c: "f m = (n_labels, labels, stats)"
  shows "(n_labels \<le> 1) = blank m"
proof
  assume n: "n_labels \<le> 1"
  show "blank m"
  proof (rule blankI)
    fix p assume f: "fgpix m p"
    then have i: "inside m p" and v: "px m p \<noteq> 0" by (simp_all add: fgpix_def)
    have "px labels p < n_labels" using ok c i by (rule labelling_okD(7))
    then have "px labels p = 0" using n by simp
    then show False using labelling_okD(6)[OF ok c i] v by simp
  qed
next
  assume b: "blank m"
  show "n_labels \<le> 1"
  proof (rule ccontr)
    assume "\<not> n_labels \<le> 1"
    then have "1 \<le> (1::nat)" "1 < n_labels" by simp_all
    then have "np_where_eq labels 1 \<noteq> []" by (rule labelling_okD(5)[OF ok c])
    then have "hd (np_where_eq labels 1) \<in> set (np_where_eq labels 1)" by (rule hd_in_set)
    then obtain p where "p \<in> set (np_where_eq labels 1)" ..
    then have "p \<in> {p. inside labels p \<and> px labels p = 1}" unfolding set_np_where_eq .
    then have il: "inside labels p" and pl: "px labels p = 1" by blast+
    have "inside labels p = inside m p"
      using labelling_okD(2)[OF ok c] by (rule inside_shape)
    then have im: "inside m p" using il by simp
    have "px labels p \<noteq> 0" using pl by simp
    then have "px m p \<noteq> 0" using labelling_okD(6)[OF ok c im] by blast
    then have "fgpix m p" using im by (simp add: fgpix_def)
    with b show False by (rule blankD)
  qed
qed

end
